theory Spec2Isabelle
  imports Main
begin

section \<open>The Padlock parser (\<open>padlock.py\<close>)\<close>

subsection \<open>Characters, symbols and instructions\<close>

text \<open>
  A Python \<open>str\<close> is a sequence of Unicode code points, and iterating over it yields
  one code point at a time. A character is modelled by its code point, so the emoji
  symbols (all six are single code points beyond the Basic Multilingual Plane) are single
  characters, as they are in Python.
\<close>

type_synonym uchar = nat

text \<open>
  \<open>str.isspace\<close> on a one-character string, as CPython decides it
  (\<open>_PyUnicode_IsWhitespace\<close>): the code points of general category \<open>Zs\<close> or of
  bidirectional class \<open>WS\<close>, \<open>B\<close> or \<open>S\<close>.
\<close>

definition isspace :: "uchar \<Rightarrow> bool" where
  "isspace c \<longleftrightarrow>
     (0x09 \<le> c \<and> c \<le> 0x0D) \<or> (0x1C \<le> c \<and> c \<le> 0x20) \<or> c = 0x85 \<or> c = 0xA0 \<or>
     c = 0x1680 \<or> (0x2000 \<le> c \<and> c \<le> 0x200A) \<or> c = 0x2028 \<or> c = 0x2029 \<or>
     c = 0x202F \<or> c = 0x205F \<or> c = 0x3000"

text \<open>The enumeration \<open>Symbol\<close> and the value of each member.\<close>

datatype Symbol = Symbol_lock | Symbol_unlock | Symbol_key | Symbol_pen
  | Symbol_keylock | Symbol_penlock

fun Symbol_value :: "Symbol \<Rightarrow> uchar" where
  "Symbol_value Symbol_lock = 0x1F512"
| "Symbol_value Symbol_unlock = 0x1F513"
| "Symbol_value Symbol_key = 0x1F511"
| "Symbol_value Symbol_pen = 0x1F58B"
| "Symbol_value Symbol_keylock = 0x1F510"
| "Symbol_value Symbol_penlock = 0x1F50F"

text \<open>
  The named tuple \<open>Instruction(name, symbol, args, processes)\<close>. The field \<open>name\<close> is
  called \<open>iname\<close> here, because \<open>name\<close> is also the source's name of an instruction.
  Equality of two instructions is equality of all four fields, as for a Python tuple.
\<close>

record Instruction =
  iname :: string
  symbol :: Symbol
  args :: int
  processes :: int

definition nil :: Instruction where
  "nil = \<lparr>iname = ''nil'', symbol = Symbol_lock, args = 0, processes = 0\<rparr>"

definition split :: Instruction where
  "split = \<lparr>iname = ''split'', symbol = Symbol_unlock, args = 0, processes = 2\<rparr>"

definition decrypt :: Instruction where
  "decrypt = \<lparr>iname = ''decrypt'', symbol = Symbol_key, args = 2, processes = 1\<rparr>"

definition name :: Instruction where
  "name = \<lparr>iname = ''name'', symbol = Symbol_pen, args = 1, processes = 1\<rparr>"

definition send :: Instruction where
  "send = \<lparr>iname = ''send'', symbol = Symbol_keylock, args = 2, processes = 1\<rparr>"

definition receive :: Instruction where
  "receive = \<lparr>iname = ''receive'', symbol = Symbol_penlock, args = 2, processes = 1\<rparr>"

definition instructions :: "Instruction list" where
  "instructions = [nil, split, decrypt, name, send, receive]"

subsection \<open>The AST and \<open>AST.push\<close>\<close>

text \<open>
  An element of a branch is an instruction, a name literal (a Python \<open>str\<close>) or a nested
  branch (a Python list). The class \<open>AST\<close> has the single field \<open>instructions\<close>, the root
  branch; the AST is modelled by that list.
\<close>

datatype item = is_Instr: Instr Instruction | is_Name: Name "uchar list" | is_Branch: Branch "item list"

type_synonym AST = "item list"

text \<open>
  The exceptions \<open>parse\<close> can raise. The first three are the ones the module defines.
  \<open>IndexError\<close> is Python's, for a list index out of range. \<open>NotAList\<close> stands for every
  way in which \<open>push\<close> fails once its traversal has reached an element that is not a list
  (an instruction or a string): indexing such a value or calling \<open>append\<close> on it raises a
  \<open>TypeError\<close>, an \<open>IndexError\<close> or an \<open>AttributeError\<close>, none of which \<open>parse\<close> catches.
\<close>

datatype error = InvalidSymbol | InvalidArgumentCount | UnexpectedEOF | IndexError | NotAList

text \<open>
  Python's list indexing \<open>x[i]\<close> for a list of length \<open>n\<close>: the position read, or \<open>None\<close>
  where Python raises \<open>IndexError\<close>. A negative index counts from the end.
\<close>

definition py_index :: "int \<Rightarrow> nat \<Rightarrow> nat option" where
  "py_index i n =
     (if 0 \<le> i \<and> i < int n then Some (nat i)
      else if i < 0 \<and> - int n \<le> i then Some (nat (int n + i))
      else None)"

text \<open>
  \<open>AST.push(value, indices)\<close>: follow \<open>indices\<close> from the root, then append \<open>value\<close> to the
  list reached. The source mutates that list in place; the model returns the updated
  branch, rebuilt along the path. Every nested list of the AST is created by its own
  \<open>[]\<close> and stored once, so no two positions share a list.
\<close>

fun push :: "item \<Rightarrow> int list \<Rightarrow> item list \<Rightarrow> error + item list" where
  "push v [] x = Inr (x @ [v])"
| "push v (i # indices) x =
     (case py_index i (length x) of
        None \<Rightarrow> Inl IndexError
      | Some k \<Rightarrow>
          (case x ! k of
             Branch y \<Rightarrow>
               (case push v indices y of
                  Inl e \<Rightarrow> Inl e
                | Inr y' \<Rightarrow> Inr (x[k := Branch y']))
           | _ \<Rightarrow> Inl NotAList))"

subsection \<open>The parser\<close>

text \<open>The two character sets, selected by \<open>ascii_symbols\<close>.\<close>

definition lock :: "bool \<Rightarrow> uchar" where
  "lock ascii_symbols = (if ascii_symbols then 78 else 0x1F512)"

definition unlock :: "bool \<Rightarrow> uchar" where
  "unlock ascii_symbols = (if ascii_symbols then 83 else 0x1F513)"

definition key :: "bool \<Rightarrow> uchar" where
  "key ascii_symbols = (if ascii_symbols then 75 else 0x1F511)"

definition pen :: "bool \<Rightarrow> uchar" where
  "pen ascii_symbols = (if ascii_symbols then 80 else 0x1F58B)"

definition keylock :: "bool \<Rightarrow> uchar" where
  "keylock ascii_symbols = (if ascii_symbols then 69 else 0x1F510)"

definition penlock :: "bool \<Rightarrow> uchar" where
  "penlock ascii_symbols = (if ascii_symbols then 82 else 0x1F50F)"

definition symbols :: "bool \<Rightarrow> uchar list" where
  "symbols ascii_symbols =
     [lock ascii_symbols, unlock ascii_symbols, key ascii_symbols, pen ascii_symbols,
      keylock ascii_symbols, penlock ascii_symbols]"

text \<open>\<open>tuple.index\<close>: the first position of a value, \<open>None\<close> for \<open>ValueError\<close>.\<close>

fun index :: "'a list \<Rightarrow> 'a \<Rightarrow> nat option" where
  "index [] c = None"
| "index (x # xs) c = (if x = c then Some 0 else map_option Suc (index xs c))"

text \<open>The parser states \<open>idle = 0\<close>, \<open>raw = 1\<close> and \<open>blank = 2\<close>.\<close>

datatype pstate = idle | raw | blank

text \<open>The local variables of \<open>parse\<close> that live across loop iterations.\<close>

record parser =
  state :: pstate
  ast :: AST
  stack_ptr :: "int list"
  instruction :: Instruction
  name_count :: int
  name_stack :: "uchar list"

definition init :: parser where
  "init = \<lparr>state = idle, ast = [], stack_ptr = [], instruction = nil, name_count = 0,
     name_stack = []\<rparr>"

text \<open>
  The loop \<open>while stack_ptr[-1] == -1: stack_ptr.pop()\<close> inside its \<open>try\<close>: \<open>None\<close> when
  \<open>stack_ptr[-1]\<close> raises \<open>IndexError\<close> (the path is then empty), otherwise the path that is
  left, whose last element is not \<open>-1\<close>.
\<close>

function escape :: "int list \<Rightarrow> int list option" where
  "escape sp =
     (if sp = [] then None
      else if last sp = - 1 then escape (butlast sp)
      else Some sp)"
  by pat_completeness auto
termination
  by (relation "measure length") auto

declare escape.simps [simp del]

text \<open>One iteration of the loop over the characters of the stream.\<close>

definition step :: "bool \<Rightarrow> bool \<Rightarrow> parser \<Rightarrow> uchar \<Rightarrow> error + parser" where
  "step utf8_names ascii_symbols p char =
     (case state p of
        idle \<Rightarrow>
          (case index (symbols ascii_symbols) char of
             None \<Rightarrow> Inr p
           | Some k \<Rightarrow>
               (let instr = instructions ! k in
                case push (Instr instr) (stack_ptr p) (ast p) of
                  Inl e \<Rightarrow> Inl e
                | Inr a1 \<Rightarrow>
                    (let p1 = p\<lparr>instruction := instr, ast := a1, name_count := 0\<rparr> in
                     if instr = nil then
                       (case escape (stack_ptr p1) of
                          None \<Rightarrow> Inr (p1\<lparr>stack_ptr := [], state := blank\<rparr>)
                        | Some sp \<Rightarrow> Inr (p1\<lparr>stack_ptr := sp[length sp - 1 := - 1]\<rparr>))
                     else if instr = split then
                       (case push (Branch []) (stack_ptr p1) a1 of
                          Inl e \<Rightarrow> Inl e
                        | Inr a2 \<Rightarrow>
                            (case push (Branch []) (stack_ptr p1) a2 of
                               Inl e \<Rightarrow> Inl e
                             | Inr a3 \<Rightarrow>
                                 Inr (p1\<lparr>ast := a3, stack_ptr := stack_ptr p1 @ [- 2]\<rparr>)))
                     else Inr (p1\<lparr>state := raw\<rparr>))))
      | raw \<Rightarrow>
          (if char = pen ascii_symbols then
             (let n = name_count p + 1 in
              if args (instruction p) > n then
                (case push (Name (name_stack p)) (stack_ptr p) (ast p) of
                   Inl e \<Rightarrow> Inl e
                 | Inr a1 \<Rightarrow> Inr (p\<lparr>name_count := n, ast := a1, name_stack := []\<rparr>))
              else if args (instruction p) = n then
                (case push (Name (name_stack p)) (stack_ptr p) (ast p) of
                   Inl e \<Rightarrow> Inl e
                 | Inr a1 \<Rightarrow>
                     Inr (p\<lparr>name_count := n, ast := a1, name_stack := [], state := idle\<rparr>))
              else Inl InvalidArgumentCount)
           else if (utf8_names \<and> \<not> isspace char) \<or> char \<in> set (symbols ascii_symbols) then
             Inr (p\<lparr>name_stack := name_stack p @ [char]\<rparr>)
           else Inr p)
      | blank \<Rightarrow>
          (if char \<in> set (symbols ascii_symbols) then Inl InvalidSymbol else Inr p))"

text \<open>The loop: it stops at the first exception.\<close>

fun run :: "bool \<Rightarrow> bool \<Rightarrow> parser \<Rightarrow> uchar list \<Rightarrow> error + parser" where
  "run utf8_names ascii_symbols p [] = Inr p"
| "run utf8_names ascii_symbols p (char # stream) =
     (case step utf8_names ascii_symbols p char of
        Inl e \<Rightarrow> Inl e
      | Inr p' \<Rightarrow> run utf8_names ascii_symbols p' stream)"

text \<open>\<open>parse(stream, utf8_names, ascii_symbols)\<close>.\<close>

definition parse :: "uchar list \<Rightarrow> bool \<Rightarrow> bool \<Rightarrow> error + AST" where
  "parse stream utf8_names ascii_symbols =
     (case run utf8_names ascii_symbols init stream of
        Inl e \<Rightarrow> Inl e
      | Inr p \<Rightarrow>
          if state p = idle then Inl UnexpectedEOF
          else if state p = raw then Inl UnexpectedEOF
          else Inr (ast p))"

section \<open>Specification vocabulary\<close>

text \<open>
  The cursor path \<open>stack_ptr\<close> holds the index \<open>-2\<close> for the first of the two branches of a
  split and \<open>-1\<close> for the second. Removing every trailing second-branch directive from a
  path, as the specification words the first step of branch closing:
\<close>

definition strip_second :: "int list \<Rightarrow> int list" where
  "strip_second sp = rev (dropWhile (\<lambda>d. d = - 1) (rev sp))"

section \<open>The shape of the tree under construction\<close>

text \<open>The four instructions that take names.\<close>

definition named :: "Instruction \<Rightarrow> bool" where
  "named i \<longleftrightarrow> i = decrypt \<or> i = name \<or> i = send \<or> i = receive"

text \<open>
  A sequence of finished groups: each group is an instruction that takes names, followed
  by as many name literals as its arity.
\<close>

inductive flat :: "item list \<Rightarrow> bool" where
  flat_Nil: "flat []"
| flat_group: "flat xs \<Longrightarrow> named i \<Longrightarrow> int (length ns) = args i \<Longrightarrow>
     flat (xs @ Instr i # map Name ns)"

text \<open>
  Finished groups followed by one unfinished group: instruction \<open>i\<close> with \<open>k\<close> of its
  names, fewer than its arity.
\<close>

definition collecting :: "Instruction \<Rightarrow> int \<Rightarrow> item list \<Rightarrow> bool" where
  "collecting i k x \<longleftrightarrow>
     (\<exists>pre ns. x = pre @ Instr i # map Name ns \<and> flat pre \<and> named i \<and>
        int (length ns) = k \<and> k < args i)"

text \<open>
  A closed branch: finished groups, then either the terminator or a split with its two
  closed branches.
\<close>

inductive complete :: "item list \<Rightarrow> bool" where
  complete_nil: "flat pre \<Longrightarrow> complete (pre @ [Instr nil])"
| complete_split: "flat pre \<Longrightarrow> complete a \<Longrightarrow> complete b \<Longrightarrow>
     complete (pre @ [Instr split, Branch a, Branch b])"

text \<open>
  \<open>at_cursor P sp x\<close>: following the path \<open>sp\<close> from the branch \<open>x\<close> goes through splits
  only, each the end of its branch; at a directive \<open>-2\<close> the second branch is still empty,
  at a directive \<open>-1\<close> the first branch is closed; the branch reached satisfies \<open>P\<close>.
\<close>

fun at_cursor :: "(item list \<Rightarrow> bool) \<Rightarrow> int list \<Rightarrow> item list \<Rightarrow> bool" where
  "at_cursor P [] x = P x"
| "at_cursor P (d # ds) x =
     (\<exists>pre a b. x = pre @ [Instr split, Branch a, Branch b] \<and> flat pre \<and>
        ((d = - 2 \<and> at_cursor P ds a \<and> b = []) \<or> (d = - 1 \<and> complete a \<and> at_cursor P ds b)))"

text \<open>The invariant of the loop of \<open>parse\<close>.\<close>

definition inv :: "parser \<Rightarrow> bool" where
  "inv p \<longleftrightarrow>
     (case state p of
        idle \<Rightarrow> at_cursor flat (stack_ptr p) (ast p)
      | raw \<Rightarrow> at_cursor (collecting (instruction p) (name_count p)) (stack_ptr p) (ast p)
      | blank \<Rightarrow> stack_ptr p = [] \<and> complete (ast p))"

section \<open>Properties of the finished AST\<close>

text \<open>\<open>every_branch P t\<close>: \<open>P\<close> holds of every branch of \<open>t\<close>, at any depth.\<close>

fun every_branch :: "(item list \<Rightarrow> bool) \<Rightarrow> item \<Rightarrow> bool" where
  "every_branch P (Instr i) = True"
| "every_branch P (Name n) = True"
| "every_branch P (Branch xs) = (P xs \<and> (\<forall>x \<in> set xs. every_branch P x))"

text \<open>
  Within one branch: every \<open>split\<close> is immediately followed by two nested branches and not
  by a third one, and a nested branch occurs nowhere else.
\<close>

fun split_shape :: "item list \<Rightarrow> bool" where
  "split_shape [] = True"
| "split_shape (Name n # rest) = split_shape rest"
| "split_shape (Branch b # rest) = False"
| "split_shape (Instr i # rest) =
     (if i = split then
        (case rest of
           Branch a # Branch b # rest' \<Rightarrow>
             (case rest' of Branch c # _ \<Rightarrow> False | _ \<Rightarrow> split_shape rest')
         | _ \<Rightarrow> False)
      else split_shape rest)"

text \<open>The number of pairs of adjacent nested branches in one branch, and in a whole tree.\<close>

fun sibling_pairs :: "item list \<Rightarrow> nat" where
  "sibling_pairs (Branch a # Branch b # rest) = Suc (sibling_pairs rest)"
| "sibling_pairs (x # rest) = sibling_pairs rest"
| "sibling_pairs [] = 0"

fun count_pairs :: "item \<Rightarrow> nat" where
  "count_pairs (Instr i) = 0"
| "count_pairs (Name n) = 0"
| "count_pairs (Branch xs) = sibling_pairs xs + sum_list (map count_pairs xs)"

text \<open>The number of \<open>split\<close> instructions in a tree.\<close>

fun count_splits :: "item \<Rightarrow> nat" where
  "count_splits (Instr i) = (if i = split then 1 else 0)"
| "count_splits (Name n) = 0"
| "count_splits (Branch xs) = sum_list (map count_splits xs)"

text \<open>
  The number of split symbols that the loop consumes as instructions, that is, reads in the
  state \<open>idle\<close>, when it runs from the parser state \<open>p\<close> over a stream.
\<close>

fun splits_consumed :: "bool \<Rightarrow> bool \<Rightarrow> parser \<Rightarrow> uchar list \<Rightarrow> nat" where
  "splits_consumed utf8_names ascii_symbols p [] = 0"
| "splits_consumed utf8_names ascii_symbols p (char # stream) =
     (case step utf8_names ascii_symbols p char of
        Inl e \<Rightarrow> 0
      | Inr p' \<Rightarrow>
          (if state p = idle \<and> char = unlock ascii_symbols then 1 else 0) +
          splits_consumed utf8_names ascii_symbols p' stream)"

text \<open>
  Within one branch: every instruction is immediately followed by exactly as many name
  literals as its arity.
\<close>

fun arity_shape :: "item list \<Rightarrow> bool" where
  "arity_shape [] = True"
| "arity_shape (Instr i # rest) =
     (int (length (takeWhile is_Name rest)) = args i \<and> arity_shape rest)"
| "arity_shape (Name n # rest) = arity_shape rest"
| "arity_shape (Branch b # rest) = arity_shape rest"

text \<open>The name literals of a tree.\<close>

fun names_of :: "item \<Rightarrow> uchar list list" where
  "names_of (Instr i) = []"
| "names_of (Name n) = [n]"
| "names_of (Branch xs) = concat (map names_of xs)"

text \<open>
  A name literal as the parser can produce it: without the delimiter, and made of symbols
  only unless \<open>utf8_names\<close> is set.
\<close>

definition good_name :: "bool \<Rightarrow> bool \<Rightarrow> uchar list \<Rightarrow> bool" where
  "good_name utf8_names ascii_symbols n \<longleftrightarrow>
     pen ascii_symbols \<notin> set n \<and>
     (\<not> utf8_names \<longrightarrow>
        set n \<subseteq> {lock ascii_symbols, unlock ascii_symbols, key ascii_symbols,
          keylock ascii_symbols, penlock ascii_symbols})"

definition names_inv :: "bool \<Rightarrow> bool \<Rightarrow> parser \<Rightarrow> bool" where
  "names_inv utf8_names ascii_symbols p \<longleftrightarrow>
     (\<forall>n \<in> set (names_of (Branch (ast p))). good_name utf8_names ascii_symbols n) \<and>
     good_name utf8_names ascii_symbols (name_stack p)"

section \<open>Translation between the character sets\<close>

text \<open>
  A translation \<open>f\<close> of characters, applied to the name literals of a tree. The nesting of
  the branches and the instructions are left as they are.
\<close>

fun translate :: "(uchar \<Rightarrow> uchar) \<Rightarrow> item \<Rightarrow> item" where
  "translate f (Instr i) = Instr i"
| "translate f (Name n) = Name (map f n)"
| "translate f (Branch xs) = Branch (map (translate f) xs)"

text \<open>The structure of a tree: its branches, instructions and name positions, without
  the text of the names.\<close>

fun skeleton :: "item \<Rightarrow> item" where
  "skeleton (Instr i) = Instr i"
| "skeleton (Name n) = Name []"
| "skeleton (Branch xs) = Branch (map skeleton xs)"

text \<open>The translation of plain text into visual text: each of the six plain symbols is
  replaced by the visual symbol of the same instruction, any other character is kept.\<close>

definition to_visual :: "uchar \<Rightarrow> uchar" where
  "to_visual c = (case index (symbols True) c of None \<Rightarrow> c | Some k \<Rightarrow> symbols False ! k)"

definition translate_parser :: "(uchar \<Rightarrow> uchar) \<Rightarrow> parser \<Rightarrow> parser" where
  "translate_parser f p =
     p\<lparr>ast := map (translate f) (ast p), name_stack := map f (name_stack p)\<rparr>"

section \<open>Lemmas\<close>

lemma named_props: "named i \<Longrightarrow> i \<noteq> nil \<and> i \<noteq> split \<and> 0 < args i \<and> args i \<le> 2"
  by (auto simp: named_def nil_def split_def decrypt_def name_def send_def receive_def)

lemma nil_neq_split: "nil \<noteq> split"
  by (simp add: nil_def split_def)

lemma args_nil_split: "args nil = 0" "args split = 0"
  by (simp_all add: nil_def split_def)

lemma index_None: "index xs c = None \<longleftrightarrow> c \<notin> set xs"
  by (induction xs) auto

lemma index_Some: "index xs c = Some k \<Longrightarrow> k < length xs \<and> xs ! k = c"
  by (induction xs arbitrary: k) (auto split: if_splits)

lemma symbols_distinct: "distinct (symbols a)"
  by (simp add: symbols_def lock_def unlock_def key_def pen_def keylock_def penlock_def)

lemma index_nth_distinct: "distinct xs \<Longrightarrow> k < length xs \<Longrightarrow> index xs (xs ! k) = Some k"
proof (induction xs arbitrary: k)
  case Nil
  then show ?case by simp
next
  case (Cons x xs)
  then show ?case by (cases k) auto
qed

lemma resolve_cases:
  assumes "index (symbols a) c = Some k"
  shows "(c = lock a \<and> instructions ! k = nil) \<or> (c = unlock a \<and> instructions ! k = split) \<or>
         (c \<noteq> lock a \<and> c \<noteq> unlock a \<and> named (instructions ! k))"
proof -
  from index_Some [OF assms] have k: "k < 6" and c: "symbols a ! k = c"
    by (simp_all add: symbols_def)
  from k have "k = 0 \<or> k = 1 \<or> k = 2 \<or> k = 3 \<or> k = 4 \<or> k = 5" by arith
  with c show ?thesis
    by (auto simp: symbols_def instructions_def named_def lock_def unlock_def key_def pen_def
        keylock_def penlock_def)
qed

lemma index_lock: "index (symbols a) (lock a) = Some 0"
  by (simp add: symbols_def)

lemma index_unlock: "index (symbols a) (unlock a) = Some 1"
  by (simp add: symbols_def lock_def unlock_def)

lemma py_index_Some: "py_index i n = Some k \<Longrightarrow> k < n"
  by (auto simp: py_index_def split: if_splits)

lemma at_cursor_mono:
  "at_cursor P sp x \<Longrightarrow> (\<And>y. P y \<Longrightarrow> Q y) \<Longrightarrow> at_cursor Q sp x"
proof (induction sp arbitrary: x)
  case Nil
  then show ?case by simp
next
  case (Cons d ds)
  from Cons.prems(1) obtain pre a b where
    x: "x = pre @ [Instr split, Branch a, Branch b]" and f: "flat pre" and
    d: "(d = - 2 \<and> at_cursor P ds a \<and> b = []) \<or> (d = - 1 \<and> complete a \<and> at_cursor P ds b)"
    by auto
  from d Cons.IH Cons.prems(2)
  have "(d = - 2 \<and> at_cursor Q ds a \<and> b = []) \<or> (d = - 1 \<and> complete a \<and> at_cursor Q ds b)"
    by blast
  with x f show ?case by auto
qed

lemma at_cursor_append: "at_cursor P (ds @ es) x = at_cursor (at_cursor P es) ds x"
  by (induction ds arbitrary: x) simp_all

lemma at_cursor_dirs: "at_cursor P sp x \<Longrightarrow> set sp \<subseteq> {- 1, - 2}"
  by (induction sp arbitrary: x) auto

lemma push_at_cursor:
  "at_cursor P sp x \<Longrightarrow>
   \<exists>x'. push v sp x = Inr x' \<and> at_cursor (\<lambda>y'. \<exists>y. P y \<and> y' = y @ [v]) sp x'"
proof (induction sp arbitrary: x)
  case Nil
  then show ?case by simp
next
  case (Cons d ds)
  from Cons.prems obtain pre a b where
    x: "x = pre @ [Instr split, Branch a, Branch b]" and f: "flat pre" and
    d: "(d = - 2 \<and> at_cursor P ds a \<and> b = []) \<or> (d = - 1 \<and> complete a \<and> at_cursor P ds b)"
    by auto
  from d show ?case
  proof
    assume h: "d = - 2 \<and> at_cursor P ds a \<and> b = []"
    from Cons.IH [of a] h obtain a' where
      a': "push v ds a = Inr a'" "at_cursor (\<lambda>y'. \<exists>y. P y \<and> y' = y @ [v]) ds a'"
      by blast
    have i: "py_index d (length x) = Some (Suc (length pre))"
      using h by (simp add: py_index_def x)
    have n: "x ! Suc (length pre) = Branch a"
      by (simp add: x nth_append)
    have u: "x[Suc (length pre) := Branch a'] = pre @ [Instr split, Branch a', Branch b]"
      by (simp add: x list_update_append)
    have "push v (d # ds) x = Inr (pre @ [Instr split, Branch a', Branch b])"
      by (simp add: i n a' u)
    moreover have "at_cursor (\<lambda>y'. \<exists>y. P y \<and> y' = y @ [v]) (d # ds)
        (pre @ [Instr split, Branch a', Branch b])"
      using h f a'(2) by auto
    ultimately show ?thesis by blast
  next
    assume h: "d = - 1 \<and> complete a \<and> at_cursor P ds b"
    from Cons.IH [of b] h obtain b' where
      b': "push v ds b = Inr b'" "at_cursor (\<lambda>y'. \<exists>y. P y \<and> y' = y @ [v]) ds b'"
      by blast
    have i: "py_index d (length x) = Some (Suc (Suc (length pre)))"
      using h by (simp add: py_index_def x)
    have n: "x ! Suc (Suc (length pre)) = Branch b"
      by (simp add: x nth_append)
    have u: "x[Suc (Suc (length pre)) := Branch b'] = pre @ [Instr split, Branch a, Branch b']"
      by (simp add: x list_update_append)
    have "push v (d # ds) x = Inr (pre @ [Instr split, Branch a, Branch b'])"
      by (simp add: i n b' u)
    moreover have "at_cursor (\<lambda>y'. \<exists>y. P y \<and> y' = y @ [v]) (d # ds)
        (pre @ [Instr split, Branch a, Branch b'])"
      using h f b'(2) by auto
    ultimately show ?thesis by blast
  qed
qed

lemma push_at_cursor':
  assumes "at_cursor P sp x" and "\<And>y. P y \<Longrightarrow> Q (y @ [v])"
  shows "\<exists>x'. push v sp x = Inr x' \<and> at_cursor Q sp x'"
proof -
  from push_at_cursor [OF assms(1), of v] obtain x' where
    x': "push v sp x = Inr x'" "at_cursor (\<lambda>y'. \<exists>y. P y \<and> y' = y @ [v]) sp x'"
    by blast
  from x'(2) have "at_cursor Q sp x'"
    by (rule at_cursor_mono) (use assms(2) in auto)
  with x'(1) show ?thesis by blast
qed

lemma escape_Nil: "escape [] = None"
  by (simp add: escape.simps)

lemma escape_second: "escape (ds @ [- 1]) = escape ds"
  by (subst escape.simps) simp

lemma escape_first: "d \<noteq> - 1 \<Longrightarrow> escape (ds @ [d]) = Some (ds @ [d])"
  by (subst escape.simps) simp

lemma escape_at_cursor:
  "at_cursor complete sp x \<Longrightarrow>
   (case escape sp of
      None \<Rightarrow> complete x
    | Some sp' \<Rightarrow> sp' \<noteq> [] \<and> last sp' = - 2 \<and> at_cursor flat (sp'[length sp' - 1 := - 1]) x)"
proof (induction sp arbitrary: x rule: rev_induct)
  case Nil
  then show ?case by (simp add: escape_Nil)
next
  case (snoc d ds)
  from snoc.prems have c: "at_cursor (at_cursor complete [d]) ds x"
    by (simp add: at_cursor_append)
  from at_cursor_dirs [OF snoc.prems] have "d = - 1 \<or> d = - 2" by auto
  then show ?case
  proof
    assume d: "d = - 1"
    have "at_cursor complete ds x"
      using c by (rule at_cursor_mono) (use d in \<open>auto intro: complete_split\<close>)
    from snoc.IH [OF this] show ?thesis by (simp add: d escape_second)
  next
    assume d: "d = - 2"
    have "at_cursor (at_cursor flat [- 1]) ds x"
      using c by (rule at_cursor_mono) (use d in \<open>auto intro: flat_Nil\<close>)
    then have "at_cursor flat (ds @ [- 1]) x" by (simp add: at_cursor_append)
    then show ?thesis by (simp add: d escape_first)
  qed
qed

lemma at_cursor_leaf: "at_cursor P sp x \<Longrightarrow> \<exists>y. P y"
  by (induction sp arbitrary: x) auto

lemma collecting_start: "flat y \<Longrightarrow> named i \<Longrightarrow> collecting i 0 (y @ [Instr i])"
  unfolding collecting_def
  by (rule exI [of _ y], rule exI [of _ "[]"]) (simp add: named_props)

lemma collecting_more:
  assumes "collecting i k y" and "k + 1 < args i"
  shows "collecting i (k + 1) (y @ [Name m])"
proof -
  from assms(1) obtain pre ns where
    y: "y = pre @ Instr i # map Name ns" and f: "flat pre" and n: "named i" and
    l: "int (length ns) = k"
    by (auto simp: collecting_def)
  have "y @ [Name m] = pre @ Instr i # map Name (ns @ [m])" by (simp add: y)
  moreover have "int (length (ns @ [m])) = k + 1" using l by simp
  ultimately show ?thesis
    unfolding collecting_def using f n assms(2) by blast
qed

lemma collecting_last:
  assumes "collecting i k y" and "args i = k + 1"
  shows "flat (y @ [Name m])"
proof -
  from assms(1) obtain pre ns where
    y: "y = pre @ Instr i # map Name ns" and f: "flat pre" and n: "named i" and
    l: "int (length ns) = k"
    by (auto simp: collecting_def)
  have "flat (pre @ Instr i # map Name (ns @ [m]))"
    by (rule flat_group [OF f n]) (use l assms(2) in simp)
  then show ?thesis by (simp add: y)
qed

lemma split_opened:
  assumes "at_cursor flat sp x"
  shows "\<exists>x1 x2 x3. push (Instr split) sp x = Inr x1 \<and> push (Branch []) sp x1 = Inr x2 \<and>
           push (Branch []) sp x2 = Inr x3 \<and> at_cursor flat (sp @ [- 2]) x3"
proof -
  let ?Q1 = "\<lambda>y'. \<exists>y. flat y \<and> y' = y @ [Instr split]"
  let ?Q2 = "\<lambda>y'. \<exists>y. flat y \<and> y' = y @ [Instr split, Branch []]"
  from push_at_cursor [OF assms, of "Instr split"] obtain x1 where
    x1: "push (Instr split) sp x = Inr x1" "at_cursor ?Q1 sp x1"
    by blast
  from push_at_cursor' [OF x1(2), of ?Q2 "Branch []"] obtain x2 where
    x2: "push (Branch []) sp x1 = Inr x2" "at_cursor ?Q2 sp x2"
    by auto
  have "\<exists>x3. push (Branch []) sp x2 = Inr x3 \<and> at_cursor (at_cursor flat [- 2]) sp x3"
    by (rule push_at_cursor' [OF x2(2)]) (auto intro: flat_Nil)
  then obtain x3 where
    x3: "push (Branch []) sp x2 = Inr x3" "at_cursor (at_cursor flat [- 2]) sp x3"
    by blast
  from x3(2) have "at_cursor flat (sp @ [- 2]) x3" by (simp add: at_cursor_append)
  with x1(1) x2(1) x3(1) show ?thesis by blast
qed

lemma step_inv:
  assumes "inv p"
  shows "case step u a p c of
           Inl e \<Rightarrow> e = InvalidSymbol
         | Inr p' \<Rightarrow> inv p'"
proof (cases "state p")
  case idle
  with assms have ac: "at_cursor flat (stack_ptr p) (ast p)" by (simp add: inv_def)
  show ?thesis
  proof (cases "index (symbols a) c")
    case None
    with idle assms show ?thesis by (simp add: step_def)
  next
    case (Some k)
    from resolve_cases [OF Some] consider
      (nil) "instructions ! k = nil" | (split) "instructions ! k = split" |
      (named) "named (instructions ! k)"
      by blast
    then show ?thesis
    proof cases
      case nil
      have "\<exists>x'. push (Instr nil) (stack_ptr p) (ast p) = Inr x' \<and>
              at_cursor complete (stack_ptr p) x'"
        by (rule push_at_cursor' [OF ac]) (rule complete_nil)
      then obtain a1 where
        a1: "push (Instr nil) (stack_ptr p) (ast p) = Inr a1" "at_cursor complete (stack_ptr p) a1"
        by blast
      from escape_at_cursor [OF a1(2)] show ?thesis
        by (cases "escape (stack_ptr p)")
          (simp_all add: step_def idle Some nil a1(1) inv_def)
    next
      case split
      from split_opened [OF ac] obtain x1 x2 x3 where
        "push (Instr split) (stack_ptr p) (ast p) = Inr x1"
        "push (Branch []) (stack_ptr p) x1 = Inr x2"
        "push (Branch []) (stack_ptr p) x2 = Inr x3"
        "at_cursor flat (stack_ptr p @ [- 2]) x3"
        by blast
      then show ?thesis
        using nil_neq_split by (simp add: step_def idle Some split inv_def)
    next
      case named
      have "\<exists>x'. push (Instr (instructions ! k)) (stack_ptr p) (ast p) = Inr x' \<and>
              at_cursor (collecting (instructions ! k) 0) (stack_ptr p) x'"
        by (rule push_at_cursor' [OF ac]) (rule collecting_start [OF _ named])
      then obtain a1 where
        "push (Instr (instructions ! k)) (stack_ptr p) (ast p) = Inr a1"
        "at_cursor (collecting (instructions ! k) 0) (stack_ptr p) a1"
        by blast
      then show ?thesis
        using named_props [OF named] by (simp add: step_def idle Some inv_def)
    qed
  qed
next
  case raw
  let ?i = "instruction p" and ?k = "name_count p"
  from raw assms have ac: "at_cursor (collecting ?i ?k) (stack_ptr p) (ast p)"
    by (simp add: inv_def)
  from at_cursor_leaf [OF ac] have lt: "?k < args ?i" by (auto simp: collecting_def)
  show ?thesis
  proof (cases "c = pen a")
    case False
    with raw ac show ?thesis by (simp add: step_def inv_def)
  next
    case True
    show ?thesis
    proof (cases "?k + 1 < args ?i")
      case more: True
      have "\<exists>x'. push (Name (name_stack p)) (stack_ptr p) (ast p) = Inr x' \<and>
              at_cursor (collecting ?i (?k + 1)) (stack_ptr p) x'"
        by (rule push_at_cursor' [OF ac]) (rule collecting_more [OF _ more])
      then obtain a1 where
        "push (Name (name_stack p)) (stack_ptr p) (ast p) = Inr a1"
        "at_cursor (collecting ?i (?k + 1)) (stack_ptr p) a1"
        by blast
      then show ?thesis
        using more by (simp add: step_def raw True inv_def)
    next
      case False
      with lt have eq: "args ?i = ?k + 1" by simp
      have "\<exists>x'. push (Name (name_stack p)) (stack_ptr p) (ast p) = Inr x' \<and>
              at_cursor flat (stack_ptr p) x'"
        by (rule push_at_cursor' [OF ac]) (rule collecting_last [OF _ eq])
      then obtain a1 where
        "push (Name (name_stack p)) (stack_ptr p) (ast p) = Inr a1"
        "at_cursor flat (stack_ptr p) a1"
        by blast
      then show ?thesis
        using eq by (simp add: step_def raw True inv_def)
    qed
  qed
next
  case blank
  with assms show ?thesis by (simp add: step_def)
qed

lemma inv_init: "inv init"
  by (simp add: inv_def init_def flat_Nil)

lemma run_inv:
  "inv p \<Longrightarrow> (case run u a p cs of Inl e \<Rightarrow> e = InvalidSymbol | Inr p' \<Rightarrow> inv p')"
proof (induction cs arbitrary: p)
  case Nil
  then show ?case by simp
next
  case (Cons c cs)
  from step_inv [OF Cons.prems, of u a c] Cons.IH show ?case
    by (cases "step u a p c") simp_all
qed

lemma run_append:
  "run u a p (cs @ ds) = (case run u a p cs of Inl e \<Rightarrow> Inl e | Inr p' \<Rightarrow> run u a p' ds)"
  by (induction cs arbitrary: p) (simp_all split: sum.splits)

lemma reachable_inv: "run u a init cs = Inr p \<Longrightarrow> inv p"
  using run_inv [OF inv_init, of u a cs] by simp

lemma inv_push: "inv p \<Longrightarrow> \<exists>x'. push v (stack_ptr p) (ast p) = Inr x'"
proof (cases "state p")
  case idle
  assume "inv p"
  with idle have "at_cursor flat (stack_ptr p) (ast p)" by (simp add: inv_def)
  from push_at_cursor [OF this] show ?thesis by blast
next
  case raw
  assume "inv p"
  with raw have "at_cursor (collecting (instruction p) (name_count p)) (stack_ptr p) (ast p)"
    by (simp add: inv_def)
  from push_at_cursor [OF this] show ?thesis by blast
next
  case blank
  assume "inv p"
  with blank show ?thesis by (simp add: inv_def)
qed

lemma inv_dirs: "inv p \<Longrightarrow> set (stack_ptr p) \<subseteq> {- 1, - 2}"
  by (cases "state p") (auto simp: inv_def dest: at_cursor_dirs)

lemma escape_strip:
  "escape sp = (if strip_second sp = [] then None else Some (strip_second sp))"
proof (induction sp rule: rev_induct)
  case Nil
  then show ?case by (simp add: escape_Nil strip_second_def)
next
  case (snoc d ds)
  show ?case
  proof (cases "d = - 1")
    case True
    with snoc show ?thesis by (simp add: escape_second strip_second_def)
  next
    case False
    then show ?thesis by (simp add: escape_first strip_second_def)
  qed
qed

lemma strip_second_last: "strip_second sp \<noteq> [] \<Longrightarrow> last (strip_second sp) \<noteq> - 1"
  unfolding strip_second_def
  by (metis (mono_tags, lifting) dropWhile_eq_Nil_conv hd_dropWhile last_rev rev_is_Nil_conv)

lemma strip_second_subset: "set (strip_second sp) \<subseteq> set sp"
  unfolding strip_second_def by (auto dest: set_dropWhileD)

lemma update_last: "sp \<noteq> [] \<Longrightarrow> sp[length sp - Suc 0 := v] = butlast sp @ [v]"
  by (induction sp rule: rev_induct) (simp_all add: list_update_append)




lemma step_ignore:
  "state p \<noteq> raw \<Longrightarrow> c \<notin> set (symbols a) \<Longrightarrow> step u a p c = Inr p"
  by (cases "state p") (simp_all add: step_def index_None [THEN iffD2])

lemma run_ignore:
  "state p \<noteq> raw \<Longrightarrow> set cs \<inter> set (symbols a) = {} \<Longrightarrow> run u a p cs = Inr p"
  by (induction cs) (auto simp: step_ignore)

lemma unlock_neq_pen: "unlock a \<noteq> pen a" "unlock a \<in> set (symbols a)"
  by (simp_all add: unlock_def pen_def symbols_def)

lemma parse_not_count: "parse stream u a \<noteq> Inl InvalidArgumentCount"
  using run_inv [OF inv_init, of u a stream]
  by (auto simp: parse_def split: sum.splits)

lemma push_Cons_decomp:
  assumes "push v (i # indices) x = Inr x'"
  shows "\<exists>pre y post y'. x = pre @ Branch y # post \<and> push v indices y = Inr y' \<and>
           x' = pre @ Branch y' # post"
proof -
  from assms obtain k where k: "py_index i (length x) = Some k"
    by (auto split: option.splits)
  then have lt: "k < length x" by (rule py_index_Some)
  from assms k obtain y where y: "x ! k = Branch y"
    by (cases "x ! k") simp_all
  from assms k y obtain y' where y': "push v indices y = Inr y'" "x' = x[k := Branch y']"
    by (auto split: sum.splits)
  have "x = take k x @ Branch y # drop (Suc k) x"
    by (metis id_take_nth_drop lt y)
  moreover have "x' = take k x @ Branch y' # drop (Suc k) x"
    using lt y'(2) by (simp add: upd_conv_take_nth_drop)
  ultimately show ?thesis using y'(1) by blast
qed

lemma push_count_splits:
  "push v sp x = Inr x' \<Longrightarrow>
   count_splits (Branch x') = count_splits (Branch x) + count_splits v"
proof (induction sp arbitrary: x x')
  case Nil
  then show ?case by auto
next
  case (Cons i sp)
  from push_Cons_decomp [OF Cons.prems] obtain pre y post y' where
    d: "x = pre @ Branch y # post" "push v sp y = Inr y'" "x' = pre @ Branch y' # post"
    by blast
  from Cons.IH [OF d(2)] show ?case by (simp add: d(1,3))
qed

lemma push_names:
  "push v sp x = Inr x' \<Longrightarrow>
   set (names_of (Branch x')) = set (names_of (Branch x)) \<union> set (names_of v)"
proof (induction sp arbitrary: x x')
  case Nil
  then show ?case by auto
next
  case (Cons i sp)
  from push_Cons_decomp [OF Cons.prems] obtain pre y post y' where
    d: "x = pre @ Branch y # post" "push v sp y = Inr y'" "x' = pre @ Branch y' # post"
    by blast
  from Cons.IH [OF d(2)] show ?case by (auto simp: d(1,3))
qed

lemma flat_plain: "flat pre \<Longrightarrow> x \<in> set pre \<Longrightarrow> (\<exists>i. x = Instr i \<and> named i) \<or> is_Name x"
  by (induction rule: flat.induct) auto

lemma every_branch_plain: "\<not> is_Branch x \<Longrightarrow> every_branch P x"
  by (cases x) simp_all

lemma flat_every_branch: "flat pre \<Longrightarrow> x \<in> set pre \<Longrightarrow> every_branch P x"
  by (drule (1) flat_plain) (auto simp: every_branch_plain)

lemma split_shape_names: "split_shape (map Name ns @ ys) = split_shape ys"
  by (induction ns) simp_all

lemma split_shape_flat: "flat pre \<Longrightarrow> split_shape (pre @ ys) = split_shape ys"
proof (induction arbitrary: ys rule: flat.induct)
  case flat_Nil
  then show ?case by simp
next
  case (flat_group xs i ns)
  from flat_group.hyps(2) have "i \<noteq> split" by (simp add: named_props)
  then show ?case by (simp add: flat_group.IH split_shape_names)
qed

lemma arity_shape_names: "arity_shape (map Name ns @ ys) = arity_shape ys"
  by (induction ns) simp_all

lemma takeWhile_hd: "ys = [] \<or> \<not> P (hd ys) \<Longrightarrow> takeWhile P ys = []"
  by (cases ys) auto

lemma takeWhile_names:
  "ys = [] \<or> \<not> is_Name (hd ys) \<Longrightarrow> takeWhile is_Name (map Name ns @ ys) = map Name ns"
  by (induction ns) (simp_all add: takeWhile_hd)

lemma arity_shape_flat:
  "flat pre \<Longrightarrow> ys = [] \<or> \<not> is_Name (hd ys) \<Longrightarrow> arity_shape (pre @ ys) = arity_shape ys"
proof (induction arbitrary: ys rule: flat.induct)
  case flat_Nil
  then show ?case by simp
next
  case (flat_group xs i ns)
  have "arity_shape ((xs @ Instr i # map Name ns) @ ys) =
        arity_shape (Instr i # map Name ns @ ys)"
    using flat_group.IH [of "Instr i # map Name ns @ ys"] by simp
  also have "\<dots> = arity_shape ys"
    using flat_group.hyps(3) flat_group.prems
    by (simp add: takeWhile_names arity_shape_names)
  finally show ?case .
qed

lemma sibling_pairs_plain: "\<not> is_Branch x \<Longrightarrow> sibling_pairs (x # rest) = sibling_pairs rest"
  by (cases x) simp_all

lemma sibling_pairs_flat: "flat pre \<Longrightarrow> sibling_pairs (pre @ ys) = sibling_pairs ys"
proof -
  assume "flat pre"
  then have "\<forall>x \<in> set pre. \<not> is_Branch x" by (auto dest: flat_plain)
  then show ?thesis by (induction pre) (simp_all add: sibling_pairs_plain)
qed

lemma flat_no_pairs: "flat pre \<Longrightarrow> x \<in> set pre \<Longrightarrow> count_pairs x = 0"
  by (drule (1) flat_plain) (auto simp: is_Name_def)

lemma flat_no_splits: "flat pre \<Longrightarrow> x \<in> set pre \<Longrightarrow> count_splits x = 0"
  by (drule (1) flat_plain) (auto simp: is_Name_def named_props)

lemma sum_list_zero: "(\<And>x. x \<in> set xs \<Longrightarrow> f x = (0::nat)) \<Longrightarrow> sum_list (map f xs) = 0"
  by (induction xs) simp_all

lemma complete_split_shape: "complete x \<Longrightarrow> every_branch split_shape (Branch x)"
proof (induction rule: complete.induct)
  case (complete_nil pre)
  then show ?case
    using nil_neq_split by (auto simp: split_shape_flat flat_every_branch)
next
  case (complete_split pre a b)
  then show ?case
    by (auto simp: split_shape_flat flat_every_branch)
qed

lemma complete_arity_shape: "complete x \<Longrightarrow> every_branch arity_shape (Branch x)"
proof (induction rule: complete.induct)
  case (complete_nil pre)
  then show ?case
    by (auto simp: arity_shape_flat flat_every_branch args_nil_split)
next
  case (complete_split pre a b)
  then show ?case
    by (auto simp: arity_shape_flat flat_every_branch args_nil_split)
qed

lemma complete_pairs: "complete x \<Longrightarrow> count_pairs (Branch x) = count_splits (Branch x)"
proof (induction rule: complete.induct)
  case (complete_nil pre)
  then show ?case
    using nil_neq_split
    by (simp add: sibling_pairs_flat sum_list_zero flat_no_pairs flat_no_splits)
next
  case (complete_split pre a b)
  then show ?case
    by (simp add: sibling_pairs_flat sum_list_zero flat_no_pairs flat_no_splits)
qed


lemma lock_neq_unlock: "lock a \<noteq> unlock a"
  by (simp add: lock_def unlock_def)

lemma step_effect:
  assumes "step u a p c = Inr p'"
  obtains
    (same) "ast p' = ast p" "name_stack p' = name_stack p" "state p = idle \<longrightarrow> c \<noteq> unlock a"
  | (char) "ast p' = ast p" "name_stack p' = name_stack p @ [c]" "c \<noteq> pen a"
      "u \<or> c \<in> set (symbols a)"
  | (instr) i where "state p = idle" "i \<noteq> split" "c \<noteq> unlock a"
      "push (Instr i) (stack_ptr p) (ast p) = Inr (ast p')" "name_stack p' = name_stack p"
  | (fork) a1 a2 where "state p = idle" "c = unlock a"
      "push (Instr split) (stack_ptr p) (ast p) = Inr a1"
      "push (Branch []) (stack_ptr p) a1 = Inr a2"
      "push (Branch []) (stack_ptr p) a2 = Inr (ast p')" "name_stack p' = name_stack p"
  | (literal) "state p = raw" "c = pen a"
      "push (Name (name_stack p)) (stack_ptr p) (ast p) = Inr (ast p')" "name_stack p' = []"
proof (cases "state p")
  case idle
  show thesis
  proof (cases "index (symbols a) c")
    case None
    then have "c \<noteq> unlock a" using unlock_neq_pen(2) [of a] by (auto simp: index_None)
    moreover from assms idle None have "p' = p" by (simp add: step_def)
    ultimately show thesis by (intro same) simp_all
  next
    case (Some k)
    let ?i = "instructions ! k"
    from assms idle Some obtain a1 where a1: "push (Instr ?i) (stack_ptr p) (ast p) = Inr a1"
      by (cases "push (Instr ?i) (stack_ptr p) (ast p)") (simp_all add: step_def Let_def)
    from resolve_cases [OF Some] consider
      (nil) "c = lock a" "?i = nil" | (split) "c = unlock a" "?i = split" |
      (named) "c \<noteq> unlock a" "named ?i"
      by blast
    then show thesis
    proof cases
      case nil
      from assms a1 have "ast p' = a1 \<and> name_stack p' = name_stack p"
        by (auto simp: step_def Let_def idle Some nil(2) split: option.splits)
      with a1 nil idle show thesis
        using nil_neq_split lock_neq_unlock [of a] by (intro instr [of nil]) simp_all
    next
      case split
      from assms a1 obtain a2 where a2: "push (Branch []) (stack_ptr p) a1 = Inr a2"
        using nil_neq_split
        by (cases "push (Branch []) (stack_ptr p) a1")
          (simp_all add: step_def Let_def idle Some split(2))
      from assms a1 obtain a3 where a3: "push (Branch []) (stack_ptr p) a2 = Inr a3"
        using nil_neq_split
        by (cases "push (Branch []) (stack_ptr p) a2")
          (simp_all add: step_def Let_def idle Some a2 split(2))
      from assms a1 have "ast p' = a3 \<and> name_stack p' = name_stack p"
        using nil_neq_split
        by (auto simp: step_def Let_def idle Some a2 a3 split(2))
      with a1 a2 a3 split idle show thesis by (intro fork [of a1 a2]) simp_all
    next
      case named
      from assms have "ast p' = a1 \<and> name_stack p' = name_stack p"
        using named_props [OF named(2)]
        by (auto simp: step_def Let_def idle Some a1)
      with a1 named idle show thesis
        using named_props [OF named(2)] by (intro instr [of ?i]) simp_all
    qed
  qed
next
  case raw
  show thesis
  proof (cases "c = pen a")
    case True
    from assms raw True obtain a1 where
      a1: "push (Name (name_stack p)) (stack_ptr p) (ast p) = Inr a1"
      by (cases "push (Name (name_stack p)) (stack_ptr p) (ast p)")
        (simp_all add: step_def Let_def split: if_splits)
    from assms have "ast p' = a1 \<and> name_stack p' = []"
      by (auto simp: step_def Let_def raw True a1 split: if_splits)
    with a1 raw True show thesis by (intro literal) simp_all
  next
    case False
    show thesis
    proof (cases "(u \<and> \<not> isspace c) \<or> c \<in> set (symbols a)")
      case True
      with assms raw False have "p' = p\<lparr>name_stack := name_stack p @ [c]\<rparr>"
        by (simp add: step_def)
      with True False show thesis by (intro char) auto
    next
      case False
      with assms raw \<open>c \<noteq> pen a\<close> have "p' = p" by (simp add: step_def)
      with raw show thesis by (intro same) simp_all
    qed
  qed
next
  case blank
  with assms have "p' = p" by (auto simp: step_def split: if_splits)
  with blank show thesis by (intro same) simp_all
qed

lemma step_count_splits:
  assumes "step u a p c = Inr p'"
  shows "count_splits (Branch (ast p')) =
         count_splits (Branch (ast p)) + (if state p = idle \<and> c = unlock a then 1 else 0)"
  using assms
proof (cases rule: step_effect)
  case same
  then show ?thesis by simp
next
  case char
  show ?thesis
  proof (cases "state p")
    case idle
    with assms have "c \<noteq> unlock a"
      using char(2) by (cases "index (symbols a) c")
        (auto simp: step_def Let_def index_unlock split: sum.splits option.splits if_splits)
    with char show ?thesis by simp
  qed (use char in simp_all)
next
  case (instr i)
  from push_count_splits [OF instr(4)] instr(2,3) show ?thesis by simp
next
  case (fork a1 a2)
  from push_count_splits [OF fork(3)] push_count_splits [OF fork(4)]
    push_count_splits [OF fork(5)] fork(1,2)
  show ?thesis by simp
next
  case literal
  from push_count_splits [OF literal(3)] literal(1) show ?thesis by simp
qed

lemma run_count_splits:
  "run u a p cs = Inr p' \<Longrightarrow>
   count_splits (Branch (ast p')) = count_splits (Branch (ast p)) + splits_consumed u a p cs"
proof (induction cs arbitrary: p)
  case Nil
  then show ?case by simp
next
  case (Cons c cs)
  from Cons.prems obtain q where q: "step u a p c = Inr q" "run u a q cs = Inr p'"
    by (auto split: sum.splits)
  from Cons.IH [OF q(2)] step_count_splits [OF q(1)] q(1) show ?case by simp
qed

lemma good_name_Nil: "good_name u a []"
  by (simp add: good_name_def)

lemma good_name_snoc:
  assumes "good_name u a n" and "c \<noteq> pen a" and "u \<or> c \<in> set (symbols a)"
  shows "good_name u a (n @ [c])"
  using assms by (auto simp: good_name_def symbols_def)

lemma step_names_inv:
  assumes "step u a p c = Inr p'" and "names_inv u a p"
  shows "names_inv u a p'"
  using assms(1)
proof (cases rule: step_effect)
  case same
  with assms(2) show ?thesis by (simp add: names_inv_def)
next
  case char
  with assms(2) show ?thesis by (simp add: names_inv_def good_name_snoc)
next
  case (instr i)
  from push_names [OF instr(4)] instr(5) assms(2) show ?thesis
    by (simp add: names_inv_def)
next
  case (fork a1 a2)
  from push_names [OF fork(3)] push_names [OF fork(4)] push_names [OF fork(5)] fork(6) assms(2)
  show ?thesis by (simp add: names_inv_def)
next
  case literal
  from push_names [OF literal(3)] literal(4) assms(2) show ?thesis
    by (simp add: names_inv_def good_name_Nil)
qed

lemma run_names_inv:
  "run u a p cs = Inr p' \<Longrightarrow> names_inv u a p \<Longrightarrow> names_inv u a p'"
proof (induction cs arbitrary: p)
  case Nil
  then show ?case by simp
next
  case (Cons c cs)
  from Cons.prems(1) obtain q where q: "step u a p c = Inr q" "run u a q cs = Inr p'"
    by (auto split: sum.splits)
  from Cons.IH [OF q(2) step_names_inv [OF q(1) Cons.prems(2)]] show ?case .
qed

lemma names_inv_init: "names_inv u a init"
  by (simp add: names_inv_def init_def good_name_Nil)

lemma parse_Inr:
  assumes "parse stream u a = Inr t"
  shows "\<exists>p. run u a init stream = Inr p \<and> state p = blank \<and> ast p = t"
  using assms by (auto simp: parse_def split: sum.splits if_splits intro: pstate.exhaust)

lemma parse_complete: "parse stream u a = Inr t \<Longrightarrow> complete t"
  by (auto dest!: parse_Inr reachable_inv simp: inv_def)

lemma escape_single: "escape [d] = (if d = - 1 then None else Some [d])"
  by (subst escape.simps) (simp add: escape_Nil)

lemma example_split: "parse [unlock a, lock a, lock a] u a =
     Inr [Instr split, Branch [Instr nil], Branch [Instr nil]]"
  by (simp add: parse_def step_def init_def index_unlock index_lock instructions_def
      nil_neq_split nil_neq_split [symmetric] py_index_def escape_Nil escape_single)

section \<open>The claims\<close>

subsection \<open>Name characters\<close>

text \<open>
  Claim C8. In the state \<open>raw\<close> (collecting a name), a character other than the delimiter
  is appended to the name buffer if and only if \<open>utf8_names\<close> is set and the character is
  not whitespace, or the character is one of the symbols of the active character set.
  Every other character leaves the whole parser state, the AST included, as it was.
\<close>

theorem collecting_name_other_char:
  "state p = raw \<Longrightarrow> char \<noteq> pen ascii_symbols \<Longrightarrow>
   step utf8_names ascii_symbols p char =
     Inr (if (utf8_names \<and> \<not> isspace char) \<or> char \<in> set (symbols ascii_symbols)
          then p\<lparr>name_stack := name_stack p @ [char]\<rparr> else p)"
  by (simp add: step_def)

theorem collecting_name_other_char_witness:
  "state (init\<lparr>state := raw\<rparr>) = raw \<and> (97::nat) \<noteq> pen True \<and> 32 \<noteq> pen True \<and>
   step True True (init\<lparr>state := raw\<rparr>) 97 = Inr (init\<lparr>state := raw, name_stack := [97]\<rparr>) \<and>
   step False True (init\<lparr>state := raw\<rparr>) 97 = Inr (init\<lparr>state := raw\<rparr>) \<and>
   step False True (init\<lparr>state := raw\<rparr>) 78 = Inr (init\<lparr>state := raw, name_stack := [78]\<rparr>) \<and>
   step True True (init\<lparr>state := raw\<rparr>) 32 = Inr (init\<lparr>state := raw\<rparr>)"
  using collecting_name_other_char [of "init\<lparr>state := raw\<rparr>" 97 True True]
    collecting_name_other_char [of "init\<lparr>state := raw\<rparr>" 97 True False]
    collecting_name_other_char [of "init\<lparr>state := raw\<rparr>" 78 True False]
    collecting_name_other_char [of "init\<lparr>state := raw\<rparr>" 32 True True]
  by (simp add: init_def pen_def isspace_def symbols_def lock_def unlock_def key_def
      keylock_def penlock_def)

subsection \<open>Ignorable characters\<close>

text \<open>
  Claim C9. Let the parser have read \<open>before\<close> without an exception and be in the state
  \<open>idle\<close> (awaiting an instruction) or \<open>blank\<close> (after the program). Characters that are not
  symbols of the active character set, inserted at that position, raise nothing and leave
  the parser state unchanged, so the outcome of \<open>parse\<close>, error or AST, is the same with and
  without them.
\<close>

theorem ignorable_insertion:
  assumes "run utf8_names ascii_symbols init before = Inr p"
    and "state p = idle \<or> state p = blank"
    and "set junk \<inter> set (symbols ascii_symbols) = {}"
  shows "run utf8_names ascii_symbols p junk = Inr p \<and>
         parse (before @ junk @ after) utf8_names ascii_symbols =
         parse (before @ after) utf8_names ascii_symbols"
proof -
  from assms(2) have "state p \<noteq> raw" by auto
  from run_ignore [OF this assms(3)] have j: "run utf8_names ascii_symbols p junk = Inr p" .
  then show ?thesis by (simp add: parse_def run_append assms(1))
qed

theorem ignorable_insertion_witness:
  "run False True init [83] =
     Inr \<lparr>state = idle, ast = [Instr split, Branch [], Branch []], stack_ptr = [- 2],
       instruction = split, name_count = 0, name_stack = []\<rparr> \<and>
   set [97, 32] \<inter> set (symbols True) = {} \<and>
   parse [83, 97, 32, 78, 78] False True = parse [83, 78, 78] False True"
proof -
  let ?p = "\<lparr>state = idle, ast = [Instr split, Branch [], Branch []], stack_ptr = [- 2],
       instruction = split, name_count = 0, name_stack = []\<rparr>"
  have r: "run False True init [83] = Inr ?p" by code_simp
  have s: "state ?p = idle \<or> state ?p = blank" by simp
  have j: "set [97, 32] \<inter> set (symbols True) = {}"
    by (simp add: symbols_def lock_def unlock_def key_def pen_def keylock_def penlock_def)
  from ignorable_insertion [OF r s j, of "[78, 78]"] r j show ?thesis by simp
qed

subsection \<open>The cursor path and \<open>push\<close>\<close>

text \<open>
  Claim C5. Whatever the stream, no call of \<open>push\<close> made by the loop of \<open>parse\<close> fails: the
  loop never stops with \<open>IndexError\<close> or with the failure of a traversal that has left the
  lists. After every prefix of the stream that is read without an exception, every element
  of \<open>stack_ptr\<close> is \<open>-1\<close> or \<open>-2\<close>, and a \<open>push\<close> of any value along \<open>stack_ptr\<close> succeeds.
\<close>

theorem push_never_fails:
  "case run utf8_names ascii_symbols init stream of
     Inl e \<Rightarrow> e \<noteq> IndexError \<and> e \<noteq> NotAList
   | Inr p \<Rightarrow> set (stack_ptr p) \<subseteq> {- 1, - 2} \<and>
       (\<forall>value. \<exists>x. push value (stack_ptr p) (ast p) = Inr x)"
  using run_inv [OF inv_init, of utf8_names ascii_symbols stream]
  by (auto split: sum.splits dest: inv_dirs inv_push)

theorem push_never_fails_witness:
  "run False True init [83, 83, 78] =
     Inr \<lparr>state = idle, ast = [Instr split, Branch [Instr split, Branch [Instr nil], Branch []], Branch []],
       stack_ptr = [- 2, - 1], instruction = nil, name_count = 0, name_stack = []\<rparr> \<and>
   set [- 2, - 1] \<subseteq> {- 1, - 2 :: int} \<and>
   (\<exists>x. push (Instr nil) [- 2, - 1]
      [Instr split, Branch [Instr split, Branch [Instr nil], Branch []], Branch []] = Inr x)"
proof -
  let ?p = "\<lparr>state = idle, ast = [Instr split, Branch [Instr split, Branch [Instr nil], Branch []], Branch []],
       stack_ptr = [- 2, - 1], instruction = nil, name_count = 0, name_stack = []\<rparr>"
  have r: "run False True init [83, 83, 78] = Inr ?p" by code_simp
  from push_never_fails [of False True "[83, 83, 78]"] r
  have "\<forall>value. \<exists>x. push value (stack_ptr ?p) (ast ?p) = Inr x" by simp
  then have "\<exists>x. push (Instr nil) (stack_ptr ?p) (ast ?p) = Inr x" by blast
  with r show ?thesis by simp
qed

subsection \<open>Argument counts\<close>

text \<open>
  Claim C1, as stated, asks for an input on which \<open>parse\<close> raises \<open>InvalidArgumentCount\<close>,
  such as \<open>decrypt\<close> followed by a third delimited name. There is none. On the stream
  \<open>KaPbPcP\<close> (plain symbols, unrestricted names) the second delimiter completes \<open>decrypt\<close>,
  \<open>c\<close> is skipped, the third delimiter is read as the instruction \<open>name\<close>, and the input
  ends in the middle of its name.
\<close>

theorem argument_count_counterexample:
  "parse [75, 97, 80, 98, 80, 99, 80] True True = Inl UnexpectedEOF \<and>
   \<not> (\<exists>stream utf8_names ascii_symbols.
        parse stream utf8_names ascii_symbols = Inl InvalidArgumentCount)"
proof
  show "parse [75, 97, 80, 98, 80, 99, 80] True True = Inl UnexpectedEOF" by code_simp
  show "\<not> (\<exists>stream utf8_names ascii_symbols.
        parse stream utf8_names ascii_symbols = Inl InvalidArgumentCount)"
    by (simp add: parse_not_count)
qed

text \<open>
  Claim C1, amended. A delimiter read in the state \<open>raw\<close> when the incremented counter
  exceeds the arity of the current instruction makes the step fail with
  \<open>InvalidArgumentCount\<close>; but the parser leaves the state \<open>raw\<close> as soon as the counter
  equals the arity, so no stream brings it there: \<open>parse\<close> never raises
  \<open>InvalidArgumentCount\<close>.
\<close>

theorem argument_count_unreachable:
  "(state p = raw \<and> args (instruction p) < name_count p + 1 \<longrightarrow>
      step utf8_names ascii_symbols p (pen ascii_symbols) = Inl InvalidArgumentCount) \<and>
   parse stream utf8_names ascii_symbols \<noteq> Inl InvalidArgumentCount"
  by (simp add: step_def parse_not_count)

theorem argument_count_unreachable_witness:
  "state (init\<lparr>state := raw\<rparr>) = raw \<and>
   args (instruction (init\<lparr>state := raw\<rparr>)) < name_count (init\<lparr>state := raw\<rparr>) + 1 \<and>
   step True True (init\<lparr>state := raw\<rparr>) (pen True) = Inl InvalidArgumentCount \<and>
   parse [75, 97, 80, 98, 80, 99, 80] True True \<noteq> Inl InvalidArgumentCount"
  using argument_count_unreachable [of "init\<lparr>state := raw\<rparr>" True True "[75, 97, 80, 98, 80, 99, 80]"]
  by (simp add: init_def nil_def)

subsection \<open>Branch closing\<close>

text \<open>
  Claim C2. Let the parser have read a stream without an exception and be in the state
  \<open>idle\<close>, and let the next character be the symbol of \<open>nil\<close>. Then \<open>nil\<close> is appended at the
  cursor, and with \<open>sp\<close> the cursor path without its trailing \<open>-1\<close> directives: if \<open>sp\<close> is
  empty, the path becomes empty and the state \<open>blank\<close>; otherwise the last directive of \<open>sp\<close>
  is \<open>-2\<close>, it is replaced by \<open>-1\<close>, and the state stays \<open>idle\<close>.
\<close>

theorem branch_closing:
  assumes "run utf8_names ascii_symbols init stream = Inr p" and "state p = idle"
  shows "\<exists>a1. push (Instr nil) (stack_ptr p) (ast p) = Inr a1 \<and>
           (let sp = strip_second (stack_ptr p);
                p1 = p\<lparr>instruction := nil, ast := a1, name_count := 0\<rparr>
            in if sp = []
               then step utf8_names ascii_symbols p (lock ascii_symbols) =
                      Inr (p1\<lparr>stack_ptr := [], state := blank\<rparr>)
               else last sp = - 2 \<and> state p1 = idle \<and>
                    step utf8_names ascii_symbols p (lock ascii_symbols) =
                      Inr (p1\<lparr>stack_ptr := butlast sp @ [- 1]\<rparr>))"
proof -
  from reachable_inv [OF assms(1)] have i: "inv p" .
  from inv_push [OF i] obtain a1 where a1: "push (Instr nil) (stack_ptr p) (ast p) = Inr a1"
    by blast
  let ?sp = "strip_second (stack_ptr p)"
  have st: "step utf8_names ascii_symbols p (lock ascii_symbols) =
      (if ?sp = []
       then Inr (p\<lparr>instruction := nil, ast := a1, name_count := 0, stack_ptr := [], state := blank\<rparr>)
       else Inr (p\<lparr>instruction := nil, ast := a1, name_count := 0,
         stack_ptr := butlast ?sp @ [- 1]\<rparr>))"
    by (simp add: step_def assms(2) index_lock instructions_def a1 escape_strip update_last)
  have "last ?sp = - 2" if "?sp \<noteq> []"
  proof -
    from that have "last ?sp \<in> set (stack_ptr p)"
      using strip_second_subset [of "stack_ptr p"] last_in_set by blast
    with inv_dirs [OF i] strip_second_last [OF that] show ?thesis by auto
  qed
  with a1 st assms(2) show ?thesis by (simp add: Let_def)
qed

theorem branch_closing_witness:
  "run False True init [83, 83, 78, 78] = Inr
     \<lparr>state = idle, ast = [Instr split, Branch [Instr split, Branch [Instr nil], Branch [Instr nil]], Branch []],
      stack_ptr = [- 1], instruction = nil, name_count = 0, name_stack = []\<rparr> \<and>
   step False True
     \<lparr>state = idle, ast = [Instr split, Branch [Instr split, Branch [Instr nil], Branch [Instr nil]], Branch []],
      stack_ptr = [- 1], instruction = nil, name_count = 0, name_stack = []\<rparr> (lock True) = Inr
     \<lparr>state = blank, ast = [Instr split, Branch [Instr split, Branch [Instr nil], Branch [Instr nil]], Branch [Instr nil]],
      stack_ptr = [], instruction = nil, name_count = 0, name_stack = []\<rparr>"
proof -
  let ?p = "\<lparr>state = idle, ast = [Instr split, Branch [Instr split, Branch [Instr nil], Branch [Instr nil]], Branch []],
      stack_ptr = [- 1], instruction = nil, name_count = 0, name_stack = []\<rparr>"
  have r: "run False True init [83, 83, 78, 78] = Inr ?p" by code_simp
  have s: "state ?p = idle" by simp
  from branch_closing [OF r s] r show ?thesis
    by (auto simp: py_index_def strip_second_def)
qed

subsection \<open>End of input\<close>



subsection \<open>Splits and sibling branches\<close>

text \<open>
  Claim C4. When \<open>parse\<close> succeeds, the number of pairs of sibling branches in the AST is
  the number of split symbols that the loop consumed as instructions, and in every branch
  of the AST each \<open>split\<close> is immediately followed by two nested branches, not by a third,
  and nested branches occur nowhere else. The stream split, nil, nil gives the root branch
  \<open>[split, [nil], [nil]]\<close>, in either character set.
\<close>

theorem split_pairs:
  "(parse stream utf8_names ascii_symbols = Inr t \<longrightarrow>
      count_pairs (Branch t) = splits_consumed utf8_names ascii_symbols init stream \<and>
      every_branch split_shape (Branch t)) \<and>
   parse [unlock ascii_symbols, lock ascii_symbols, lock ascii_symbols] utf8_names ascii_symbols =
     Inr [Instr split, Branch [Instr nil], Branch [Instr nil]]"
proof (intro conjI impI)
  assume t: "parse stream utf8_names ascii_symbols = Inr t"
  from parse_Inr [OF t] obtain p where
    p: "run utf8_names ascii_symbols init stream = Inr p" "ast p = t"
    by blast
  from run_count_splits [OF p(1)] p(2)
  have "count_splits (Branch t) = splits_consumed utf8_names ascii_symbols init stream"
    by (simp add: init_def)
  with complete_pairs [OF parse_complete [OF t]]
  show "count_pairs (Branch t) = splits_consumed utf8_names ascii_symbols init stream"
    by simp
  from complete_split_shape [OF parse_complete [OF t]]
  show "every_branch split_shape (Branch t)" .
next
  show "parse [unlock ascii_symbols, lock ascii_symbols, lock ascii_symbols] utf8_names ascii_symbols =
     Inr [Instr split, Branch [Instr nil], Branch [Instr nil]]"
    by (rule example_split)
qed

theorem split_pairs_witness:
  "parse [83, 83, 78, 78, 78] False True =
     Inr [Instr split, Branch [Instr split, Branch [Instr nil], Branch [Instr nil]], Branch [Instr nil]] \<and>
   count_pairs (Branch [Instr split, Branch [Instr split, Branch [Instr nil], Branch [Instr nil]],
     Branch [Instr nil]]) = 2 \<and>
   splits_consumed False True init [83, 83, 78, 78, 78] = 2 \<and>
   every_branch split_shape (Branch [Instr split,
     Branch [Instr split, Branch [Instr nil], Branch [Instr nil]], Branch [Instr nil]])"
proof -
  let ?t = "[Instr split, Branch [Instr split, Branch [Instr nil], Branch [Instr nil]], Branch [Instr nil]]"
  have r: "parse [83, 83, 78, 78, 78] False True = Inr ?t" by code_simp
  have c: "count_pairs (Branch ?t) = 2" by simp
  from split_pairs [of "[83, 83, 78, 78, 78]" False True ?t] r
  have a: "count_pairs (Branch ?t) = splits_consumed False True init [83, 83, 78, 78, 78]"
    and b: "every_branch split_shape (Branch ?t)"
    by blast+
  have s: "splits_consumed False True init [83, 83, 78, 78, 78] = 2"
    by (rule trans [OF a [symmetric] c])
  show ?thesis by (intro conjI r c s b)
qed

subsection \<open>Names and arities\<close>

text \<open>
  Claim C7. When \<open>parse\<close> succeeds, in every branch of the AST every instruction is
  immediately followed by exactly as many name literals as its arity: none for \<open>nil\<close> and
  \<open>split\<close>, one for \<open>name\<close>, two for \<open>decrypt\<close>, \<open>send\<close> and \<open>receive\<close>.
\<close>

theorem names_match_arity:
  "parse stream utf8_names ascii_symbols = Inr t \<Longrightarrow> every_branch arity_shape (Branch t)"
  by (rule complete_arity_shape [OF parse_complete])

theorem names_match_arity_witness:
  "parse [83, 75, 97, 80, 98, 80, 78, 80, 80, 78] True True =
     Inr [Instr split, Branch [Instr decrypt, Name [97], Name [98], Instr nil],
       Branch [Instr name, Name [], Instr nil]] \<and>
   every_branch arity_shape (Branch [Instr split,
     Branch [Instr decrypt, Name [97], Name [98], Instr nil],
     Branch [Instr name, Name [], Instr nil]])"
proof -
  have r: "parse [83, 75, 97, 80, 98, 80, 78, 80, 80, 78] True True =
     Inr [Instr split, Branch [Instr decrypt, Name [97], Name [98], Instr nil],
       Branch [Instr name, Name [], Instr nil]]"
    by code_simp
  from names_match_arity [OF r] r show ?thesis by blast
qed

subsection \<open>The delimiter never occurs in a name\<close>

text \<open>
  Claim C10. When \<open>parse\<close> succeeds, no name literal of the AST contains the symbol of
  \<open>name\<close>, the delimiter, whatever \<open>utf8_names\<close> is; and when \<open>utf8_names\<close> is not set, every
  character of every name literal is one of the other five symbols.
\<close>

theorem names_without_delimiter:
  assumes "parse stream utf8_names ascii_symbols = Inr t"
    and "n \<in> set (names_of (Branch t))"
  shows "pen ascii_symbols \<notin> set n \<and>
         (\<not> utf8_names \<longrightarrow>
            set n \<subseteq> {lock ascii_symbols, unlock ascii_symbols, key ascii_symbols,
              keylock ascii_symbols, penlock ascii_symbols})"
proof -
  from parse_Inr [OF assms(1)] obtain p where
    p: "run utf8_names ascii_symbols init stream = Inr p" "ast p = t"
    by blast
  from run_names_inv [OF p(1) names_inv_init] p(2) assms(2)
  have "good_name utf8_names ascii_symbols n" by (auto simp: names_inv_def)
  then show ?thesis by (simp add: good_name_def)
qed

theorem names_without_delimiter_witness:
  "parse [80, 78, 97, 83, 80, 78] False True = Inr [Instr name, Name [78, 83], Instr nil] \<and>
   [78, 83] \<in> set (names_of (Branch [Instr name, Name [78, 83], Instr nil])) \<and>
   pen True \<notin> set [78, 83] \<and>
   set [78, 83] \<subseteq> {lock True, unlock True, key True, keylock True, penlock True}"
proof -
  have r: "parse [80, 78, 97, 83, 80, 78] False True = Inr [Instr name, Name [78, 83], Instr nil]"
    by code_simp
  have m: "[78, 83] \<in> set (names_of (Branch [Instr name, Name [78, 83], Instr nil]))"
    by simp
  from names_without_delimiter [OF r m, THEN conjunct1]
  have d: "pen True \<notin> set [78, 83]" .
  from names_without_delimiter [OF r m, THEN conjunct2]
  have e: "set [78, 83] \<subseteq> {lock True, unlock True, key True, keylock True, penlock True}"
    by simp
  show ?thesis by (intro conjI r m d e)
qed

end
